theory Spec2Isabelle
  imports Main
begin

section \<open>The markdown filters of nbconvert (nbconvert/filters/markdown.py)\<close>

text \<open>
  The module is a set of filters that hand markdown text to pandoc (through the
  collaborators \<open>convert_pandoc\<close> and \<open>get_pandoc_version\<close>, which live in other modules)
  or to the mistune renderer, plus a regex clean-up of pandoc's asciidoc output.

  Text is a \<open>string\<close>; its characters stand for the code points 0 to 255. Exceptions are
  values of \<open>error\<close>; a function that may raise returns \<open>error + 'a\<close>.
\<close>

subsection \<open>Errors, collaborators and the record of their calls\<close>

datatype error =
    ImportError string
  | InvalidVersion string
  | Raised string

text \<open>
  \<open>Raised\<close> stands for whatever a collaborator raises; the filters catch nothing, so
  it reaches the caller as it is.

  The two collaborators are fields of an environment. Every call of one of them is
  appended to a list of events, which the filters take and return.
\<close>

datatype event =
    GetPandocVersion
  | ConvertPandoc string string string "string list option"

record env =
  get_pandoc_version :: "error + string option"
  convert_pandoc :: "string \<Rightarrow> string \<Rightarrow> string \<Rightarrow> string list option \<Rightarrow> error + string"

definition call_convert_pandoc ::
  "env \<Rightarrow> string \<Rightarrow> string \<Rightarrow> string \<Rightarrow> string list option \<Rightarrow> event list \<Rightarrow>
   (error + string) \<times> event list" where
  "call_convert_pandoc E source fmt to extra_args tr =
     (convert_pandoc E source fmt to extra_args, tr @ [ConvertPandoc source fmt to extra_args])"

definition MARKDOWN_FMT :: string where
  "MARKDOWN_FMT = ''markdown+lists_without_preceding_blankline''"

text \<open>Python's \<open>extra_args or default\<close>: \<open>None\<close> and the empty list are both falsy.\<close>

definition or_default :: "string list option \<Rightarrow> string list \<Rightarrow> string list" where
  "or_default extra_args dflt =
     (case extra_args of None \<Rightarrow> dflt | Some [] \<Rightarrow> dflt | Some (x # xs) \<Rightarrow> x # xs)"

subsection \<open>markdown2latex, markdown2rst, markdown2html_pandoc\<close>

text \<open>
  \<open>markup\<close> is the keyword parameter of \<open>markdown2latex\<close> whose default is
  \<open>_MARKDOWN_FMT\<close>: \<open>None\<close> is a call that leaves it out.
\<close>

definition markdown2latex ::
  "env \<Rightarrow> string \<Rightarrow> string option \<Rightarrow> string list option \<Rightarrow> event list \<Rightarrow>
   (error + string) \<times> event list" where
  "markdown2latex E source markup extra_args tr =
     call_convert_pandoc E source (case markup of None \<Rightarrow> MARKDOWN_FMT | Some m \<Rightarrow> m)
       ''latex'' extra_args tr"

definition markdown2rst ::
  "env \<Rightarrow> string \<Rightarrow> string list option \<Rightarrow> event list \<Rightarrow> (error + string) \<times> event list" where
  "markdown2rst E source extra_args tr =
     call_convert_pandoc E source MARKDOWN_FMT ''rst'' extra_args tr"

definition markdown2html_pandoc ::
  "env \<Rightarrow> string \<Rightarrow> string list option \<Rightarrow> event list \<Rightarrow> (error + string) \<times> event list" where
  "markdown2html_pandoc E source extra_args tr =
     (let extra_args' = or_default extra_args [''--mathjax'']
      in call_convert_pandoc E source MARKDOWN_FMT ''html'' (Some extra_args') tr)"

subsection \<open>Version comparison (packaging.version.Version)\<close>

text \<open>
  \<open>Version\<close> belongs to the packaging library. The model covers the versions that are a
  release segment only, \<open>N(.N)*\<close> with decimal numbers \<open>N\<close>; this is the shape of every
  version \<open>get_pandoc_version\<close> extracts from pandoc's banner. The further forms packaging
  accepts (epoch, pre-, post- and development releases, local labels, a leading \<open>v\<close>,
  surrounding blanks) are not modelled: the model answers \<open>InvalidVersion\<close> for every
  string outside \<open>N(.N)*\<close>, and the theorems below speak only of versions it parses.

  Two such versions compare by their release tuples with the trailing zeros removed,
  compared as Python tuples.
\<close>

definition is_digit :: "char \<Rightarrow> bool" where
  "is_digit c = ((of_char (CHR ''0'') :: nat) \<le> of_char c \<and> (of_char c :: nat) \<le> of_char (CHR ''9''))"

definition int_of_digits :: "string \<Rightarrow> nat" where
  "int_of_digits s = foldl (\<lambda>n c. 10 * n + (of_char c - of_char (CHR ''0''))) 0 s"

fun split_dot :: "string \<Rightarrow> string list" where
  "split_dot [] = [[]]"
| "split_dot (c # s) =
     (if c = CHR ''.'' then [] # split_dot s
      else (case split_dot s of [] \<Rightarrow> [[c]] | p # ps \<Rightarrow> (c # p) # ps))"

definition Version :: "string \<Rightarrow> error + nat list" where
  "Version s =
     (let parts = split_dot s
      in if list_all (\<lambda>p. p \<noteq> [] \<and> list_all is_digit p) parts
         then Inr (map int_of_digits parts)
         else Inl (InvalidVersion s))"

definition cmpkey :: "nat list \<Rightarrow> nat list" where
  "cmpkey release = rev (dropWhile (\<lambda>x. x = 0) (rev release))"

fun tuple_le :: "nat list \<Rightarrow> nat list \<Rightarrow> bool" where
  "tuple_le [] ys = True"
| "tuple_le (x # xs) [] = False"
| "tuple_le (x # xs) (y # ys) = (x < y \<or> (x = y \<and> tuple_le xs ys))"

definition version_ge :: "nat list \<Rightarrow> nat list \<Rightarrow> bool" where
  "version_ge a b = tuple_le (cmpkey b) (cmpkey a)"

text \<open>Python's comparison of two strings, code point by code point, for contrast.\<close>

fun str_ge :: "string \<Rightarrow> string \<Rightarrow> bool" where
  "str_ge xs [] = True"
| "str_ge [] (y # ys) = False"
| "str_ge (x # xs) (y # ys) =
     ((of_char y :: nat) < of_char x \<or> (x = y \<and> str_ge xs ys))"

subsection \<open>The regular expressions of markdown2asciidoc\<close>

text \<open>
  \<open>\w\<close> on a \<open>str\<close> pattern is Unicode-aware: an alphanumeric code point or the underscore.
  Below 256 these are the ASCII letters and digits, the underscore, and the letters, superscript
  digits and fractions of Latin-1.
\<close>

definition is_word :: "char \<Rightarrow> bool" where
  "is_word c =
     (let n = (of_char c :: nat) in
        (48 \<le> n \<and> n \<le> 57) \<or> (65 \<le> n \<and> n \<le> 90) \<or> n = 95 \<or> (97 \<le> n \<and> n \<le> 122) \<or>
        n = 170 \<or> n = 178 \<or> n = 179 \<or> n = 181 \<or> n = 185 \<or> n = 186 \<or>
        (188 \<le> n \<and> n \<le> 190) \<or> (192 \<le> n \<and> n \<le> 214) \<or>
        (216 \<le> n \<and> n \<le> 246) \<or> 248 \<le> n)"

text \<open>The class \<^verbatim>\<open>[\w \n-]\<close>: a word character, a blank, a newline or a hyphen.\<close>

definition emph_class :: "char \<Rightarrow> bool" where
  "emph_class c = (is_word c \<or> c = CHR '' '' \<or> c = CHR 0x0A \<or> c = CHR ''-'')"

text \<open>The class \<^verbatim>\<open>[:,.\n\)]\<close>.\<close>

definition emph_follow :: "char \<Rightarrow> bool" where
  "emph_follow c =
     (c = CHR '':'' \<or> c = CHR '','' \<or> c = CHR ''.'' \<or> c = CHR 0x0A \<or> c = CHR '')'')"

text \<open>
  The class \<^verbatim>\<open>[\w\/-:\.]\<close>: between the escaped slash and the colon the hyphen is a range
  operator, so the class holds the word characters, the code points from \<open>/\<close> to \<open>:\<close>
  and the full stop.
\<close>

definition link_class :: "char \<Rightarrow> bool" where
  "link_class c =
     (is_word c \<or>
      ((of_char (CHR ''/'') :: nat) \<le> of_char c \<and> (of_char c :: nat) \<le> of_char (CHR '':'')) \<or>
      c = CHR ''.'')"

text \<open>
  A greedy \<open>[...]+\<close> followed by the rest \<open>k\<close> of the pattern, as the backtracking matcher
  runs it: one character of the class, then the longer group first, and the rest of the
  pattern only when no longer group leads to a match. The result is the group and what
  \<open>k\<close> returns.
\<close>

fun greedy_plus ::
  "(char \<Rightarrow> bool) \<Rightarrow> (string \<Rightarrow> 'a option) \<Rightarrow> string \<Rightarrow> (string \<times> 'a) option" where
  "greedy_plus cls k [] = None"
| "greedy_plus cls k (c # s) =
     (if cls c then
        (case greedy_plus cls k s of
           Some (g, r) \<Rightarrow> Some (c # g, r)
         | None \<Rightarrow> (case k s of Some r \<Rightarrow> Some ([c], r) | None \<Rightarrow> None))
      else None)"

text \<open>\<^verbatim>\<open>\b\<close>: the characters before and after the position differ in being word characters.\<close>

definition word_boundary :: "bool \<Rightarrow> string \<Rightarrow> bool" where
  "word_boundary prev_word s =
     (prev_word \<noteq> (case s of [] \<Rightarrow> False | c # _ \<Rightarrow> is_word c))"

text \<open>
  \<^verbatim>\<open>\b__([\w \n-]+)__([:,.\n\)])\<close> tried at one position; \<open>prev_word\<close> says whether the
  character before the position is a word character. A match gives group 1, group 2 and
  the text after the match.
\<close>

fun emph_close :: "string \<Rightarrow> (char \<times> string) option" where
  "emph_close (a # b # f # r) =
     (if a = CHR ''_'' \<and> b = CHR ''_'' \<and> emph_follow f then Some (f, r) else None)"
| "emph_close _ = None"

fun match_emph :: "bool \<Rightarrow> string \<Rightarrow> (string \<times> char \<times> string) option" where
  "match_emph prev_word (a # b # t) =
     (if word_boundary prev_word (a # b # t) \<and> a = CHR ''_'' \<and> b = CHR ''_''
      then greedy_plus emph_class emph_close t else None)"
| "match_emph prev_word _ = None"

text \<open>\<^verbatim>\<open>\(__([\w\/-:\.]+)__\)\<close> tried at one position: group 1 and the text after the match.\<close>

fun link_close :: "string \<Rightarrow> string option" where
  "link_close (a # b # c # r) =
     (if a = CHR ''_'' \<and> b = CHR ''_'' \<and> c = CHR '')'' then Some r else None)"
| "link_close _ = None"

fun match_link :: "string \<Rightarrow> (string \<times> string) option" where
  "match_link (p # a # b # t) =
     (if p = CHR ''('' \<and> a = CHR ''_'' \<and> b = CHR ''_''
      then greedy_plus link_class link_close t else None)"
| "match_link _ = None"

lemma greedy_plus_shorter:
  assumes "greedy_plus cls k s = Some (g, r)"
    and "\<And>t r'. k t = Some r' \<Longrightarrow> m r' < length t"
  shows "m r < length s"
  using assms(1)
proof (induction s arbitrary: g)
  case Nil
  then show ?case by simp
next
  case (Cons c s)
  show ?case
  proof (cases "greedy_plus cls k s")
    case None
    with Cons.prems have "k s = Some r"
      by (auto split: if_splits option.splits)
    then show ?thesis using assms(2) by fastforce
  next
    case (Some a)
    with Cons.prems obtain g' where "greedy_plus cls k s = Some (g', r)"
      by (cases a) (auto split: if_splits)
    then show ?thesis using Cons.IH by fastforce
  qed
qed

lemma emph_close_shorter: "emph_close t = Some (f, r) \<Longrightarrow> length r < length t"
  by (induction t rule: emph_close.induct) (auto split: if_splits)

lemma link_close_shorter: "link_close t = Some r \<Longrightarrow> length r < length t"
  by (induction t rule: link_close.induct) (auto split: if_splits)

lemma match_emph_shorter: "match_emph pw s = Some (g, f, r) \<Longrightarrow> length r < length s"
proof (induction pw s rule: match_emph.induct)
  case (1 pw a b t)
  then have "greedy_plus emph_class emph_close t = Some (g, f, r)"
    by (simp split: if_splits)
  then have "(length \<circ> snd) (f, r) < length t"
    by (rule greedy_plus_shorter) (auto dest: emph_close_shorter)
  then show ?case by simp
qed simp_all

lemma match_link_shorter: "match_link s = Some (g, r) \<Longrightarrow> length r < length s"
proof (induction s rule: match_link.induct)
  case (1 p a b t)
  then have "greedy_plus link_class link_close t = Some (g, r)"
    by (simp split: if_splits)
  then have "length r < length t"
    by (rule greedy_plus_shorter) (auto dest: link_close_shorter)
  then show ?case by simp
qed simp_all

text \<open>
  \<open>re.sub\<close> with the template \<^verbatim>\<open>_\1_\2\<close>: the text is scanned from the left; at a
  position where the pattern matches, the replacement is emitted and the scan goes on
  after the match; elsewhere the character is copied. No match of either pattern is
  empty.
\<close>

function sub_emph_from :: "bool \<Rightarrow> string \<Rightarrow> string" where
  "sub_emph_from prev_word [] = []"
| "sub_emph_from prev_word (c # s) =
     (case match_emph prev_word (c # s) of
        Some (g, f, r) \<Rightarrow> CHR ''_'' # g @ CHR ''_'' # f # sub_emph_from (is_word f) r
      | None \<Rightarrow> c # sub_emph_from (is_word c) s)"
  by pat_completeness auto
termination
  by (relation "measure (\<lambda>(pw, s). length s)") (auto dest: match_emph_shorter)

definition sub_emph :: "string \<Rightarrow> string" where
  "sub_emph s = sub_emph_from False s"

text \<open>\<open>re.sub\<close> with the template \<^verbatim>\<open>(_\1_)\<close>.\<close>

function sub_link :: "string \<Rightarrow> string" where
  "sub_link [] = []"
| "sub_link (c # s) =
     (case match_link (c # s) of
        Some (g, r) \<Rightarrow> CHR ''('' # CHR ''_'' # g @ CHR ''_'' # CHR '')'' # sub_link r
      | None \<Rightarrow> c # sub_link s)"
  by pat_completeness auto
termination
  by (relation "measure length") (auto dest: match_link_shorter)

text \<open>Python's \<open>p in s\<close> on strings.\<close>

fun startswith :: "string \<Rightarrow> string \<Rightarrow> bool" where
  "startswith s [] = True"
| "startswith [] (p # ps) = False"
| "startswith (c # s) (p # ps) = (c = p \<and> startswith s ps)"

fun str_in :: "string \<Rightarrow> string \<Rightarrow> bool" where
  "str_in p [] = (p = [])"
| "str_in p (c # s) = (startswith (c # s) p \<or> str_in p s)"

text \<open>Lines 88 to 91 of the source: the workaround applied to pandoc's output.\<close>

definition fix_underscores :: "string \<Rightarrow> string" where
  "fix_underscores asciidoc =
     (if str_in ''__'' asciidoc then sub_link (sub_emph asciidoc) else asciidoc)"

subsection \<open>markdown2asciidoc\<close>

definition atx_args_for :: "string option \<Rightarrow> error + string list" where
  "atx_args_for pandoc_version =
     (case pandoc_version of
        None \<Rightarrow> Inr [''--atx-headers'']
      | Some v \<Rightarrow>
          if v = [] then Inr [''--atx-headers'']
          else (case Version v of
                  Inl e \<Rightarrow> Inl e
                | Inr a \<Rightarrow>
                    (case Version ''3.0'' of
                       Inl e \<Rightarrow> Inl e
                     | Inr b \<Rightarrow>
                         if version_ge a b then Inr [''--markdown-headings=atx'']
                         else Inr [''--atx-headers''])))"

definition markdown2asciidoc ::
  "env \<Rightarrow> string \<Rightarrow> string list option \<Rightarrow> event list \<Rightarrow> (error + string) \<times> event list" where
  "markdown2asciidoc E source extra_args tr =
     (let tr1 = tr @ [GetPandocVersion] in
      case get_pandoc_version E of
        Inl e \<Rightarrow> (Inl e, tr1)
      | Inr pandoc_version \<Rightarrow>
          (case atx_args_for pandoc_version of
             Inl e \<Rightarrow> (Inl e, tr1)
           | Inr atx_args \<Rightarrow>
               (let extra_args' = or_default extra_args atx_args;
                    (res, tr2) =
                      call_convert_pandoc E source MARKDOWN_FMT ''asciidoc'' (Some extra_args') tr1
                in case res of
                     Inl e \<Rightarrow> (Inl e, tr2)
                   | Inr asciidoc \<Rightarrow> (Inr (fix_underscores asciidoc), tr2))))"

subsection \<open>Loading the module: the optional mistune renderer\<close>

text \<open>
  The import of \<open>markdown_mistune\<close> at load time either gives the renderer, or raises
  \<open>ImportError\<close> with a reason, or raises something else. Only \<open>ImportError\<close> is caught.
\<close>

datatype import_outcome =
    Imported "string \<Rightarrow> error + string"
  | ImportFailed string
  | ImportCrashed error

record filters =
  markdown2html_mistune :: "string \<Rightarrow> error + string"
  markdown2html :: "string \<Rightarrow> error + string"

definition mistune_stub :: "string \<Rightarrow> string \<Rightarrow> error + string" where
  "mistune_stub mistune_import_error source =
     Inl (ImportError (''markdown2html requires mistune: '' @ mistune_import_error))"

definition load_module :: "import_outcome \<Rightarrow> error + filters" where
  "load_module imp =
     (case imp of
        Imported f \<Rightarrow> Inr \<lparr>markdown2html_mistune = f, markdown2html = f\<rparr>
      | ImportFailed e \<Rightarrow>
          Inr \<lparr>markdown2html_mistune = mistune_stub e, markdown2html = mistune_stub e\<rparr>
      | ImportCrashed x \<Rightarrow> Inl x)"

subsection \<open>Version strings from release numbers\<close>

text \<open>
  A number written in decimal digits, as it stands in a version string.
\<close>

function decimal :: "nat \<Rightarrow> string" where
  "decimal n =
     (if n < 10 then [char_of (48 + n)]
      else decimal (n div 10) @ [char_of (48 + n mod 10)])"
  by pat_completeness auto
termination
  by (relation "measure id") auto

declare decimal.simps [simp del]

text \<open>
  The version string of a list of release numbers: their decimal forms joined by full
  stops.
\<close>

fun dotted :: "nat list \<Rightarrow> string" where
  "dotted [] = []"
| "dotted [n] = decimal n"
| "dotted (n # m # ns) = decimal n @ CHR ''.'' # dotted (m # ns)"

subsection \<open>Conditions on the text around a match\<close>

text \<open>
  An opening \<^verbatim>\<open>__\<close> that is still open at the end of a text: it stands at the start of the
  text or after a non-word character, and only characters of \<^verbatim>\<open>[\w \n-]\<close> follow it up to
  the end. \<open>prev_word\<close> is read as in \<open>match_emph\<close>.
\<close>

fun open_emph :: "bool \<Rightarrow> string \<Rightarrow> bool" where
  "open_emph prev_word [] = False"
| "open_emph prev_word (c # s) =
     ((\<not> prev_word \<and> startswith (c # s) ''__'' \<and> list_all emph_class s) \<or>
      open_emph (is_word c) s)"

text \<open>
  The text goes on with characters of \<^verbatim>\<open>[\w \n-]\<close> (none or more), then \<^verbatim>\<open>__\<close> and one of
  the characters of \<^verbatim>\<open>[:,.\n\)]\<close>: a closing the group of a match can still reach.
\<close>

fun later_close :: "string \<Rightarrow> bool" where
  "later_close [] = False"
| "later_close (c # s) =
     ((case emph_close (c # s) of Some x \<Rightarrow> True | None \<Rightarrow> False) \<or>
      (emph_class c \<and> later_close s))"

text \<open>
  The link pattern cannot match across the word sequence \<open>w\<close> in single underscores
  followed by \<open>f\<close>: a closing parenthesis \<open>f\<close> does not follow an underscore of \<open>w\<close>, and
  when \<open>f\<close> is a character of the link class, \<open>w\<close> has a character outside it.
\<close>

definition link_blocked :: "string \<Rightarrow> char \<Rightarrow> bool" where
  "link_blocked w f =
     ((f = CHR '')'' \<longrightarrow> last w \<noteq> CHR ''_'') \<and>
      (link_class f \<longrightarrow> list_ex (\<lambda>c. \<not> link_class c) w))"

text \<open>
  An opening parenthesis that is followed, up to the end of the text, only by characters
  of the link class.
\<close>

fun open_link :: "string \<Rightarrow> bool" where
  "open_link [] = False"
| "open_link (c # s) = ((c = CHR ''('' \<and> list_all link_class s) \<or> open_link s)"



text \<open>An environment for concrete runs: no version is reported and the converter echoes its input.\<close>

definition echo_env :: env where
  "echo_env = \<lparr>get_pandoc_version = Inr None, convert_pandoc = (\<lambda>source fmt to extra. Inr source)\<rparr>"

section \<open>Properties\<close>

subsection \<open>Default arguments and the version test\<close>

lemma or_default_falsy: "or_default None d = d" "or_default (Some []) d = d"
  by (simp_all add: or_default_def)

lemma cmpkey_Cons:
  "cmpkey (x # xs) = (if x = 0 \<and> cmpkey xs = [] then [] else x # cmpkey xs)"
  by (auto simp: cmpkey_def dropWhile_append dropWhile_eq_Nil_conv)

lemma version_ge_3_0: "version_ge (major # rest) [3, 0] \<longleftrightarrow> 3 \<le> major"
proof -
  have k: "cmpkey [3, 0] = [3]" by (simp add: cmpkey_def)
  show ?thesis
    unfolding version_ge_def k by (auto simp: cmpkey_Cons)
qed

lemma Version_3_0: "Version ''3.0'' = Inr [3, 0]"
  by (simp add: Version_def is_digit_def int_of_digits_def)

lemma atx_args_for_parsed:
  "v \<noteq> [] \<Longrightarrow> Version v = Inr (major # rest) \<Longrightarrow>
   atx_args_for (Some v) =
     Inr (if 3 \<le> major then [''--markdown-headings=atx''] else [''--atx-headers''])"
  by (simp add: atx_args_for_def Version_3_0 version_ge_3_0)

lemma asciidoc_calls:
  "atx_args_for pv = Inr a \<Longrightarrow>
   snd (markdown2asciidoc (E\<lparr>get_pandoc_version := Inr pv\<rparr>) source extra_args tr) =
     tr @ [GetPandocVersion,
           ConvertPandoc source MARKDOWN_FMT ''asciidoc'' (Some (or_default extra_args a))]"
  by (simp add: markdown2asciidoc_def call_convert_pandoc_def Let_def split: sum.splits)

lemma markdown2asciidoc_result:
  assumes "get_pandoc_version E = Inr pv" and "atx_args_for pv = Inr a"
    and "convert_pandoc E source MARKDOWN_FMT ''asciidoc'' (Some (or_default extra_args a)) = Inr out"
  shows "fst (markdown2asciidoc E source extra_args tr) = Inr (fix_underscores out)"
  using assms by (simp add: markdown2asciidoc_def call_convert_pandoc_def Let_def)

lemma version_ge_Cons:
  "version_ge (x # xs) (y # ys) \<longleftrightarrow> y < x \<or> (x = y \<and> version_ge xs ys)"
  by (auto simp: version_ge_def cmpkey_Cons neq_Nil_conv split: if_splits)

lemma version_ge_Nil:
  "version_ge xs []" "version_ge [] ys \<longleftrightarrow> list_all (\<lambda>y. y = 0) ys"
proof -
  show "version_ge xs []" by (simp add: version_ge_def cmpkey_def)
  have k: "cmpkey ys = [] \<longleftrightarrow> list_all (\<lambda>y. y = 0) ys"
    by (simp add: cmpkey_def dropWhile_eq_Nil_conv list_all_iff)
  have "version_ge [] ys \<longleftrightarrow> cmpkey ys = []"
    by (cases "cmpkey ys") (simp_all add: version_ge_def cmpkey_def [of "[]"])
  with k show "version_ge [] ys \<longleftrightarrow> list_all (\<lambda>y. y = 0) ys" by simp
qed

subsection \<open>Parsing the decimal rendering of release numbers\<close>

lemma digit_char: "d < 10 \<Longrightarrow> (of_char (char_of (48 + d :: nat) :: char) :: nat) = 48 + d"
  by (simp add: of_char_of)

lemma digit_char_props:
  assumes "(d :: nat) < 10"
  shows "is_digit (char_of (48 + d))" and "char_of (48 + d) \<noteq> CHR ''.''"
proof -
  show "is_digit (char_of (48 + d))"
    using assms by (simp add: is_digit_def digit_char)
  show "char_of (48 + d) \<noteq> CHR ''.''"
  proof
    assume "char_of (48 + d) = CHR ''.''"
    then have "(of_char (char_of (48 + d) :: char) :: nat) = of_char (CHR ''.'')"
      by (rule arg_cong)
    then have "48 + d = (46 :: nat)" unfolding digit_char [OF assms] by simp
    then show False by simp
  qed
qed

lemma int_of_digits_snoc:
  "int_of_digits (s @ [c]) = 10 * int_of_digits s + (of_char c - of_char (CHR ''0''))"
  by (simp add: int_of_digits_def)

lemma decimal_props:
  "decimal n \<noteq> [] \<and> list_all is_digit (decimal n) \<and> CHR ''.'' \<notin> set (decimal n) \<and>
   int_of_digits (decimal n) = n"
proof (induction n rule: decimal.induct)
  case (1 n)
  show ?case
  proof (cases "n < 10")
    case True
    then have "decimal n = [char_of (48 + n)]" by (subst decimal.simps) simp
    with True digit_char_props [OF True] show ?thesis
      by (simp add: int_of_digits_def digit_char)
  next
    case False
    have m: "n mod 10 < 10" by simp
    from False have d: "decimal n = decimal (n div 10) @ [char_of (48 + n mod 10)]"
      by (subst decimal.simps) simp
    from 1 [OF False] digit_char_props [OF m] show ?thesis
      unfolding d by (simp add: int_of_digits_snoc digit_char [OF m])
  qed
qed

lemma split_dot_nonempty: "split_dot s \<noteq> []"
  by (induction s) (auto split: list.splits)

lemma split_dot_no_dot: "CHR ''.'' \<notin> set d \<Longrightarrow> split_dot (d @ s) =
    (case split_dot s of [] \<Rightarrow> [d] | p # ps \<Rightarrow> (d @ p) # ps)"
proof (induction d)
  case Nil
  show ?case using split_dot_nonempty [of s] by (cases "split_dot s") simp_all
next
  case (Cons c d)
  then show ?case using split_dot_nonempty [of s] by (cases "split_dot s") (auto split: list.splits)
qed

lemma split_dot_dotted: "ns \<noteq> [] \<Longrightarrow> split_dot (dotted ns) = map decimal ns"
proof (induction ns rule: dotted.induct)
  case 1
  then show ?case by simp
next
  case (2 n)
  have "split_dot (decimal n @ []) = [decimal n]"
    using decimal_props [of n] by (subst split_dot_no_dot) simp_all
  then show ?case by simp
next
  case (3 n m ns)
  have "split_dot (decimal n @ CHR ''.'' # dotted (m # ns)) =
        decimal n # split_dot (dotted (m # ns))"
    using decimal_props [of n] by (subst split_dot_no_dot) simp_all
  with 3 show ?case by simp
qed

lemma Version_dotted: "ns \<noteq> [] \<Longrightarrow> Version (dotted ns) = Inr ns"
proof -
  assume n: "ns \<noteq> []"
  have "list_all (\<lambda>p. p \<noteq> [] \<and> list_all is_digit p) (map decimal ns)"
    using decimal_props by (simp add: list_all_iff)
  moreover have "map int_of_digits (map decimal ns) = ns"
    using decimal_props by (simp add: map_idI)
  ultimately show ?thesis
    using n by (simp add: Version_def split_dot_dotted)
qed

lemma dotted_nonempty: "dotted (n # ns) \<noteq> []"
  using decimal_props [of n] by (cases ns) simp_all

subsection \<open>What a match looks like\<close>

lemma list3_cases:
  obtains (long) a b c r where "u = a # b # c # r" | (nil) "u = []"
    | (one) a where "u = [a]" | (two) a b where "u = [a, b]"
  by (cases u; cases "tl u"; cases "tl (tl u)") auto

lemma greedy_plus_decomp:
  "greedy_plus cls k s = Some (g, x) \<Longrightarrow>
   \<exists>t. s = g @ t \<and> k t = Some x \<and> g \<noteq> [] \<and> (\<forall>c\<in>set g. cls c)"
proof (induction s arbitrary: g)
  case Nil
  then show ?case by simp
next
  case (Cons c s)
  then have c: "cls c" by (simp split: if_splits)
  show ?case
  proof (cases "greedy_plus cls k s")
    case None
    with Cons.prems c have "k s = Some x" "g = [c]"
      by (auto split: option.splits)
    with c show ?thesis by simp
  next
    case (Some a)
    obtain g' x' where a: "a = (g', x')" by (cases a)
    with Some Cons.prems c have e: "g = c # g'" "x' = x" by auto
    from Cons.IH [of g'] Some a e obtain t where
      "s = g' @ t" "k t = Some x" "\<forall>c\<in>set g'. cls c" by auto
    with c e show ?thesis by auto
  qed
qed



lemma greedy_plus_exact:
  assumes "\<forall>c\<in>set w. cls c" and "k rest = Some x" and "greedy_plus cls k rest = None"
  shows "w \<noteq> [] \<Longrightarrow> greedy_plus cls k (w @ rest) = Some (w, x)"
  using assms(1)
proof (induction w)
  case Nil
  then show ?case by simp
next
  case (Cons c w)
  show ?case
  proof (cases "w = []")
    case True
    with Cons.prems assms(2,3) show ?thesis by simp
  next
    case False
    with Cons have "greedy_plus cls k (w @ rest) = Some (w, x)" by simp
    with Cons.prems show ?thesis by simp
  qed
qed

lemma greedy_plus_step_None:
  "greedy_plus cls k s = None \<Longrightarrow> k s = None \<Longrightarrow> greedy_plus cls k (c # s) = None"
  by simp


lemma emph_close_decomp:
  "emph_close t = Some (f, r) \<Longrightarrow> t = CHR ''_'' # CHR ''_'' # f # r \<and> emph_follow f"
  by (induction t rule: emph_close.induct) (auto split: if_splits)

lemma link_close_decomp:
  "link_close t = Some r \<Longrightarrow> t = CHR ''_'' # CHR ''_'' # CHR '')'' # r"
  by (induction t rule: link_close.induct) (auto split: if_splits)

lemma match_emph_decomp:
  assumes "match_emph pw s = Some (g, f, r)"
  shows "s = CHR ''_'' # CHR ''_'' # g @ CHR ''_'' # CHR ''_'' # f # r"
    and "g \<noteq> []" and "\<forall>c\<in>set g. emph_class c" and "emph_follow f" and "\<not> pw"
proof -
  obtain t where s: "s = CHR ''_'' # CHR ''_'' # t"
    and wb: "word_boundary pw s"
    and gp: "greedy_plus emph_class emph_close t = Some (g, f, r)"
    using assms by (induction pw s rule: match_emph.induct) (auto split: if_splits)
  from greedy_plus_decomp [OF gp] obtain u where
    u: "t = g @ u" "emph_close u = Some (f, r)" "g \<noteq> []" "\<forall>c\<in>set g. emph_class c"
    by blast
  from u(2) have "u = CHR ''_'' # CHR ''_'' # f # r" "emph_follow f"
    by (auto dest: emph_close_decomp)
  with s u show "s = CHR ''_'' # CHR ''_'' # g @ CHR ''_'' # CHR ''_'' # f # r"
    "g \<noteq> []" "\<forall>c\<in>set g. emph_class c" "emph_follow f" by simp_all
  from wb s show "\<not> pw" by (simp add: word_boundary_def is_word_def)
qed

lemma match_link_decomp:
  assumes "match_link s = Some (g, r)"
  shows "s = CHR ''('' # CHR ''_'' # CHR ''_'' # g @ CHR ''_'' # CHR ''_'' # CHR '')'' # r"
    and "g \<noteq> []" and "\<forall>c\<in>set g. link_class c"
proof -
  obtain t where s: "s = CHR ''('' # CHR ''_'' # CHR ''_'' # t"
    and gp: "greedy_plus link_class link_close t = Some (g, r)"
    using assms by (induction s rule: match_link.induct) (auto split: if_splits)
  from greedy_plus_decomp [OF gp] obtain u where
    u: "t = g @ u" "link_close u = Some r" "g \<noteq> []" "\<forall>c\<in>set g. link_class c"
    by blast
  from u(2) have "u = CHR ''_'' # CHR ''_'' # CHR '')'' # r"
    by (rule link_close_decomp)
  with s u show "s = CHR ''('' # CHR ''_'' # CHR ''_'' # g @ CHR ''_'' # CHR ''_'' # CHR '')'' # r"
    "g \<noteq> []" "\<forall>c\<in>set g. link_class c" by simp_all
qed

lemma match_emph_None_first: "CHR ''_'' \<noteq> c \<Longrightarrow> match_emph pw (c # s) = None"
  by (cases s) simp_all

lemma match_link_None_first: "CHR ''('' \<noteq> c \<Longrightarrow> match_link (c # s) = None"
  by (cases "(c # s)" rule: match_link.cases) simp_all


subsection \<open>Character classes\<close>

lemma emph_follow_not_word: "emph_follow f \<Longrightarrow> \<not> is_word f"
  by (auto simp: emph_follow_def is_word_def)

lemma emph_follow_not_class: "emph_follow f \<Longrightarrow> f \<noteq> CHR 0x0A \<Longrightarrow> \<not> emph_class f"
  by (auto simp: emph_follow_def emph_class_def is_word_def)

lemma emph_follow_neq: "emph_follow f \<Longrightarrow> f \<noteq> CHR ''_'' \<and> f \<noteq> CHR ''(''"
  by (auto simp: emph_follow_def)

lemma emph_class_not_paren: "emph_class c \<Longrightarrow> c \<noteq> CHR ''(''"
  by (auto simp: emph_class_def is_word_def)

lemma emph_class_underscore: "emph_class (CHR ''_'')"
  by (simp add: emph_class_def is_word_def)

lemma emph_class_not_close: "emph_class c \<Longrightarrow> c \<noteq> CHR '')''"
  by (auto simp: emph_class_def is_word_def)

lemma link_class_underscore: "link_class (CHR ''_'')"
  by (simp add: link_class_def is_word_def)


subsection \<open>Text without a double underscore\<close>

lemma str_in_uu_Cons:
  "str_in ''__'' (c # s) \<longleftrightarrow> (c = CHR ''_'' \<and> (\<exists>t. s = CHR ''_'' # t)) \<or> str_in ''__'' s"
  by (cases s) auto


lemma str_in_uu_append2: "str_in ''__'' s \<Longrightarrow> str_in ''__'' (s @ t)"
proof (induction s)
  case Nil
  then show ?case by simp
next
  case (Cons a s)
  then show ?case by (cases s) auto
qed


lemma match_emph_str_in: "match_emph pw s = Some x \<Longrightarrow> str_in ''__'' s"
  by (cases x) (auto dest!: match_emph_decomp(1))

lemma match_link_str_in: "match_link s = Some x \<Longrightarrow> str_in ''__'' s"
  by (cases x) (auto dest!: match_link_decomp(1))


lemma sub_emph_from_no_uu: "\<not> str_in ''__'' s \<Longrightarrow> sub_emph_from pw s = s"
proof (induction s arbitrary: pw)
  case Nil
  show ?case by simp
next
  case (Cons c s)
  have "match_emph pw (c # s) = None"
  proof (cases "match_emph pw (c # s)")
    case (Some x)
    then have "str_in ''__'' (c # s)" by (rule match_emph_str_in)
    with Cons.prems show ?thesis by blast
  qed simp
  moreover have "\<not> str_in ''__'' s"
    using Cons.prems by (simp add: str_in_uu_Cons)
  ultimately show ?case using Cons.IH by simp
qed

lemma sub_link_no_uu: "\<not> str_in ''__'' s \<Longrightarrow> sub_link s = s"
proof (induction s)
  case Nil
  show ?case by simp
next
  case (Cons c s)
  have "match_link (c # s) = None"
  proof (cases "match_link (c # s)")
    case (Some x)
    then have "str_in ''__'' (c # s)" by (rule match_link_str_in)
    with Cons.prems show ?thesis by blast
  qed simp
  moreover have "\<not> str_in ''__'' s"
    using Cons.prems by (simp add: str_in_uu_Cons)
  ultimately show ?case using Cons.IH by simp
qed

lemma fix_underscores_eq: "fix_underscores s = sub_link (sub_emph s)"
  by (simp add: fix_underscores_def sub_emph_def sub_emph_from_no_uu sub_link_no_uu)

lemma sub_link_no_paren: "CHR ''('' \<notin> set x \<Longrightarrow> sub_link (x @ y) = x @ sub_link y"
  by (induction x) (simp_all add: match_link_None_first)

subsection \<open>A match does not depend on the text after a character outside its class\<close>

lemma greedy_plus_context:
  assumes k: "\<And>u. \<exists>x\<in>set u. \<not> cls x \<Longrightarrow> k (u @ S) = map_option e (k u)"
  shows "\<exists>x\<in>set t. \<not> cls x \<Longrightarrow>
         greedy_plus cls k (t @ S) = map_option (\<lambda>(g, r). (g, e r)) (greedy_plus cls k t)"
proof (induction t)
  case Nil
  then show ?case by simp
next
  case (Cons c t)
  show ?case
  proof (cases "cls c")
    case False
    then show ?thesis by simp
  next
    case True
    with Cons.prems have t: "\<exists>x\<in>set t. \<not> cls x" by auto
    from Cons.IH [OF t] k [OF t] True show ?thesis
      by (cases "greedy_plus cls k t"; cases "k t") auto
  qed
qed

lemma emph_close_context:
  "\<exists>x\<in>set u. \<not> emph_class x \<Longrightarrow>
   emph_close (u @ S) = map_option (\<lambda>(f, r). (f, r @ S)) (emph_close u)"
proof (cases u rule: list3_cases)
  case (long a b f r)
  then show ?thesis by simp
next
  case nil
  assume "\<exists>x\<in>set u. \<not> emph_class x"
  with nil show ?thesis by simp
next
  case (one a)
  assume "\<exists>x\<in>set u. \<not> emph_class x"
  with one have "a \<noteq> CHR ''_''" using emph_class_underscore by auto
  with one show ?thesis by (cases S rule: emph_close.cases) simp_all
next
  case (two a b)
  assume "\<exists>x\<in>set u. \<not> emph_class x"
  with two have "a \<noteq> CHR ''_'' \<or> b \<noteq> CHR ''_''" using emph_class_underscore by auto
  with two show ?thesis by (cases S) auto
qed

lemma greedy_emph_context:
  "\<exists>x\<in>set t. \<not> emph_class x \<Longrightarrow>
   greedy_plus emph_class emph_close (t @ S) =
     map_option (\<lambda>(g, f, r). (g, f, r @ S)) (greedy_plus emph_class emph_close t)"
  using greedy_plus_context [of emph_class emph_close S "\<lambda>(f, r). (f, r @ S)" t]
    emph_close_context [of _ S]
  by (simp add: case_prod_unfold)

lemma open_emph_append:
  "\<not> open_emph pw (a @ b) \<Longrightarrow> a \<noteq> [] \<Longrightarrow> \<not> open_emph (is_word (last a)) b"
proof (induction a arbitrary: pw)
  case Nil
  then show ?case by simp
next
  case (Cons x a)
  show ?case
  proof (cases "a = []")
    case True
    with Cons.prems show ?thesis by simp
  next
    case False
    from Cons.prems have "\<not> open_emph (is_word x) (a @ b)" by simp
    from Cons.IH [OF this False] False show ?thesis by simp
  qed
qed

lemma match_emph_context:
  assumes "\<not> open_emph pw (c # p)" and "\<not> is_word (last (c # p))"
  shows "match_emph pw (c # p @ S) =
         map_option (\<lambda>(g, f, r). (g, f, r @ S)) (match_emph pw (c # p))"
proof (cases p)
  case Nil
  with assms(2) have "CHR ''_'' \<noteq> c" by (auto simp: is_word_def)
  with Nil show ?thesis by (simp add: match_emph_None_first)
next
  case (Cons b t)
  show ?thesis
  proof (cases "word_boundary pw (c # b # t) \<and> c = CHR ''_'' \<and> b = CHR ''_''")
    case False
    with Cons show ?thesis by (auto simp: word_boundary_def)
  next
    case True
    then have "\<not> pw" by (auto simp: word_boundary_def is_word_def)
    with True Cons assms(1) have "\<exists>x\<in>set t. \<not> emph_class x"
      by (auto simp: emph_class_underscore list_all_iff)
    from greedy_emph_context [OF this, of S] True Cons show ?thesis
      by (simp add: word_boundary_def)
  qed
qed

lemma sub_emph_from_context:
  "\<not> open_emph pw pre \<Longrightarrow> pre \<noteq> [] \<longrightarrow> \<not> is_word (last pre) \<Longrightarrow>
   sub_emph_from pw (pre @ S) =
     sub_emph_from pw pre @ sub_emph_from (if pre = [] then pw else False) S"
proof (induction pw pre rule: sub_emph_from.induct)
  case (1 pw)
  show ?case by simp
next
  case (2 pw c p)
  have m: "match_emph pw (c # p @ S) =
         map_option (\<lambda>(g, f, r). (g, f, r @ S)) (match_emph pw (c # p))"
    using 2(3,4) by (intro match_emph_context) simp_all
  show ?case
  proof (cases "match_emph pw (c # p)")
    case None
    have o: "\<not> open_emph (is_word c) p" using 2(3) by simp
    have l: "p \<noteq> [] \<longrightarrow> \<not> is_word (last p)" using 2(4) by auto
    have e: "p = [] \<Longrightarrow> is_word c = False" using 2(4) by simp
    from 2(1) [OF None o l] None m e show ?thesis
      by (cases "p = []") simp_all
  next
    case (Some a)
    obtain g f r where a: "a = (g, f, r)" by (cases a)
    note d = match_emph_decomp [OF Some [unfolded a]]
    have cp: "c # p = (CHR ''_'' # CHR ''_'' # g @ [CHR ''_'', CHR ''_'', f]) @ r"
      using d(1) by simp
    have o: "\<not> open_emph (is_word f) r"
      using open_emph_append [of pw "CHR ''_'' # CHR ''_'' # g @ [CHR ''_'', CHR ''_'', f]" r]
        2(3) cp by simp
    have l: "r \<noteq> [] \<longrightarrow> \<not> is_word (last r)" using 2(4) cp by auto
    have e: "r = [] \<Longrightarrow> is_word f = False" using 2(4) cp by auto
    from 2(2) [OF Some a [symmetric] refl o l] Some a m e show ?thesis
      by (cases "r = []") simp_all
  qed
qed

lemma link_close_context:
  "\<exists>x\<in>set u. \<not> link_class x \<Longrightarrow> link_close (u @ S) = map_option (\<lambda>r. r @ S) (link_close u)"
proof (cases u rule: list3_cases)
  case (long a b c r)
  then show ?thesis by simp
next
  case nil
  assume "\<exists>x\<in>set u. \<not> link_class x"
  with nil show ?thesis by simp
next
  case (one a)
  assume "\<exists>x\<in>set u. \<not> link_class x"
  with one have "a \<noteq> CHR ''_''" using link_class_underscore by auto
  with one show ?thesis by (cases S rule: link_close.cases) simp_all
next
  case (two a b)
  assume "\<exists>x\<in>set u. \<not> link_class x"
  with two have "a \<noteq> CHR ''_'' \<or> b \<noteq> CHR ''_''" using link_class_underscore by auto
  with two show ?thesis by (cases S) auto
qed

lemma greedy_link_context:
  "\<exists>x\<in>set t. \<not> link_class x \<Longrightarrow>
   greedy_plus link_class link_close (t @ S) =
     map_option (\<lambda>(g, r). (g, r @ S)) (greedy_plus link_class link_close t)"
  using greedy_plus_context [of link_class link_close S "\<lambda>r. r @ S" t] link_close_context [of _ S]
  by simp

lemma open_link_append: "\<not> open_link (a @ b) \<Longrightarrow> \<not> open_link b"
  by (induction a) simp_all

lemma match_link_context:
  assumes "\<not> open_link (c # p)"
  shows "match_link (c # p @ S) = map_option (\<lambda>(g, r). (g, r @ S)) (match_link (c # p))"
proof (cases "c # p" rule: list3_cases)
  case (long q a b t)
  show ?thesis
  proof (cases "q = CHR ''('' \<and> a = CHR ''_'' \<and> b = CHR ''_''")
    case False
    with long show ?thesis by auto
  next
    case True
    with long assms have "\<exists>x\<in>set t. \<not> link_class x"
      by (auto simp: link_class_underscore list_all_iff)
    from greedy_link_context [OF this, of S] True long show ?thesis by auto
  qed
next
  case nil
  then show ?thesis by simp
next
  case (one q)
  with assms have "CHR ''('' \<noteq> c" by auto
  with one show ?thesis by (simp add: match_link_None_first)
next
  case (two q a)
  with assms have "CHR ''('' \<noteq> c \<or> a \<noteq> CHR ''_''"
    using link_class_underscore by auto
  with two show ?thesis by (cases S) auto
qed

lemma sub_link_context:
  "\<not> open_link p \<Longrightarrow> sub_link (p @ S) = sub_link p @ sub_link S"
proof (induction p rule: sub_link.induct)
  case 1
  show ?case by simp
next
  case (2 c p)
  note m = match_link_context [OF 2(3), of S]
  show ?case
  proof (cases "match_link (c # p)")
    case None
    have "\<not> open_link p" using 2(3) by simp
    from 2(1) [OF None this] None m show ?thesis by simp
  next
    case (Some a)
    obtain g r where a: "a = (g, r)" by (cases a)
    from match_link_decomp(1) [OF Some [unfolded a]]
    have "c # p = (CHR ''('' # CHR ''_'' # CHR ''_'' # g @ [CHR ''_'', CHR ''_'', CHR '')'']) @ r"
      by simp
    with 2(3) have "\<not> open_link r" by (metis open_link_append)
    from 2(2) [OF Some a [symmetric] this] Some a m show ?thesis by simp
  qed
qed

subsection \<open>The group of a wrapped word sequence\<close>

lemma greedy_emph_None_iff:
  "greedy_plus emph_class emph_close (x # s) = None \<longleftrightarrow> \<not> (emph_class x \<and> later_close s)"
proof (induction s arbitrary: x)
  case Nil
  show ?case by simp
next
  case (Cons c s)
  show ?case
    using Cons.IH [of c]
    by (cases "greedy_plus emph_class emph_close (c # s)"; cases "emph_close (c # s)") auto
qed

lemma greedy_emph_after_close:
  assumes "emph_follow f" and "f = CHR 0x0A \<longrightarrow> \<not> later_close post"
  shows "greedy_plus emph_class emph_close (CHR ''_'' # CHR ''_'' # f # post) = None"
proof -
  have f: "f \<noteq> CHR ''_''" using assms(1) by (simp add: emph_follow_neq)
  have 1: "greedy_plus emph_class emph_close (f # post) = None"
    using assms emph_follow_not_class [of f]
    by (auto simp: greedy_emph_None_iff simp del: greedy_plus.simps)
  have 2: "emph_close (f # post) = None"
    using f by (cases "f # post" rule: emph_close.cases) auto
  have 3: "emph_close (CHR ''_'' # f # post) = None"
    using f by (cases post) simp_all
  from 1 2 have 5: "greedy_plus emph_class emph_close (CHR ''_'' # f # post) = None"
    by (rule greedy_plus_step_None)
  from 5 3 show ?thesis by (rule greedy_plus_step_None)
qed

lemma match_emph_wrapped:
  assumes "w \<noteq> []" and "\<forall>c\<in>set w. emph_class c" and "emph_follow f"
    and "f = CHR 0x0A \<longrightarrow> \<not> later_close post"
  shows "match_emph False (CHR ''_'' # CHR ''_'' # w @ CHR ''_'' # CHR ''_'' # f # post) =
         Some (w, f, post)"
proof -
  have "greedy_plus emph_class emph_close (w @ CHR ''_'' # CHR ''_'' # f # post) = Some (w, f, post)"
    using assms(2) _ greedy_emph_after_close [OF assms(3,4)] assms(1)
    by (rule greedy_plus_exact) (simp add: assms(3))
  then show ?thesis
    by (simp add: word_boundary_def is_word_def)
qed

lemma sub_emph_wrapped:
  assumes pre: "pre = [] \<or> \<not> is_word (last pre)" "\<not> open_emph False pre"
    and w: "w \<noteq> []" "\<forall>c\<in>set w. emph_class c"
    and f: "emph_follow f" "f = CHR 0x0A \<longrightarrow> \<not> later_close post"
  shows "sub_emph (pre @ ''__'' @ w @ ''__'' @ f # post) =
         sub_emph pre @ ''_'' @ w @ ''_'' @ f # sub_emph post"
proof -
  let ?s = "''__'' @ w @ ''__'' @ f # post"
  note m = match_emph_wrapped [OF w f]
  have "sub_emph (pre @ ?s) = sub_emph pre @ sub_emph_from False ?s"
    using sub_emph_from_context [of False pre ?s] pre by (auto simp: sub_emph_def)
  also have "sub_emph_from False ?s = CHR ''_'' # w @ CHR ''_'' # f # sub_emph_from (is_word f) post"
    using m by (simp del: match_emph.simps)
  also have "is_word f = False" using f(1) by (simp add: emph_follow_not_word)
  finally show ?thesis by (simp add: sub_emph_def)
qed

subsection \<open>The link substitution around a rewritten word sequence\<close>

lemma link_close_blocked:
  assumes "\<forall>c\<in>set w. emph_class c" and "emph_follow f"
    and "f = CHR '')'' \<longrightarrow> w = [] \<or> last w \<noteq> CHR ''_''"
  shows "link_close (w @ CHR ''_'' # f # Q) = None"
proof (cases w rule: list3_cases)
  case (long a b c r)
  with assms(1) have "c \<noteq> CHR '')''" by (auto dest: emph_class_not_close)
  with long show ?thesis by simp
next
  case nil
  have "f \<noteq> CHR ''_''" using assms(2) by (simp add: emph_follow_neq)
  with nil show ?thesis by (cases Q) simp_all
next
  case (one a)
  with assms(3) show ?thesis by auto
next
  case (two a b)
  then show ?thesis by simp
qed

lemma greedy_link_blocked:
  assumes "emph_follow f"
  shows "\<forall>c\<in>set w. emph_class c \<Longrightarrow> f = CHR '')'' \<longrightarrow> w = [] \<or> last w \<noteq> CHR ''_'' \<Longrightarrow>
         link_class f \<longrightarrow> (\<exists>c\<in>set w. \<not> link_class c) \<Longrightarrow>
         greedy_plus link_class link_close (w @ CHR ''_'' # f # Q) = None"
proof (induction w)
  case Nil
  then have "\<not> link_class f" by simp
  moreover have "link_close (f # Q) = None"
    using assms by (cases "f # Q" rule: link_close.cases) (auto simp: emph_follow_neq)
  ultimately show ?case by simp
next
  case (Cons c w)
  show ?case
  proof (cases "link_class c")
    case False
    then show ?thesis by simp
  next
    case True
    have 1: "greedy_plus link_class link_close (w @ CHR ''_'' # f # Q) = None"
      using Cons True by (intro Cons.IH) (auto split: if_splits)
    have 2: "link_close (w @ CHR ''_'' # f # Q) = None"
      using Cons.prems assms by (intro link_close_blocked) (auto split: if_splits)
    from 1 2 show ?thesis by simp
  qed
qed

lemma link_close_into_wrapped:
  assumes "w \<noteq> []" and "\<forall>c\<in>set w. emph_class c"
  shows "link_close (t @ CHR ''_'' # w @ CHR ''_'' # f # Q) =
         map_option (\<lambda>r. r @ CHR ''_'' # w @ CHR ''_'' # f # Q) (link_close t)"
proof -
  obtain a w' where w: "w = a # w'" using assms(1) by (cases w) auto
  have a: "a \<noteq> CHR '')''" using assms(2) w by (auto dest: emph_class_not_close)
  have x: "hd (w' @ CHR ''_'' # f # Q) \<noteq> CHR '')''"
    using assms(2) w by (cases w') (auto dest: emph_class_not_close)
  show ?thesis
  proof (cases t rule: list3_cases)
    case (long p q c r)
    then show ?thesis by simp
  next
    case nil
    with w x show ?thesis by (cases "w' @ CHR ''_'' # f # Q") auto
  next
    case (one p)
    with w a show ?thesis by simp
  next
    case (two p q)
    then show ?thesis by simp
  qed
qed

lemma greedy_link_into_wrapped:
  assumes "w \<noteq> []" and "\<forall>c\<in>set w. emph_class c" and "emph_follow f" and "link_blocked w f"
  shows "greedy_plus link_class link_close (t @ CHR ''_'' # w @ CHR ''_'' # f # Q) =
         map_option (\<lambda>(g, r). (g, r @ CHR ''_'' # w @ CHR ''_'' # f # Q))
           (greedy_plus link_class link_close t)"
proof (induction t)
  case Nil
  have 1: "greedy_plus link_class link_close (w @ CHR ''_'' # f # Q) = None"
    using assms by (intro greedy_link_blocked) (auto simp: link_blocked_def list_ex_iff)
  have 2: "link_close (w @ CHR ''_'' # f # Q) = None"
    using assms by (intro link_close_blocked) (auto simp: link_blocked_def)
  from 1 2 show ?case by simp
next
  case (Cons c t)
  note k = link_close_into_wrapped [OF assms(1,2), of t f Q]
  show ?case
    using Cons.IH k
    by (cases "greedy_plus link_class link_close t"; cases "link_close t") auto
qed

lemma match_link_into_wrapped:
  assumes "w \<noteq> []" and "\<forall>c\<in>set w. emph_class c" and "emph_follow f" and "link_blocked w f"
  shows "match_link (p @ CHR ''_'' # w @ CHR ''_'' # f # Q) =
         map_option (\<lambda>(g, r). (g, r @ CHR ''_'' # w @ CHR ''_'' # f # Q)) (match_link p)"
proof (cases p rule: list3_cases)
  case (long q a b t)
  with greedy_link_into_wrapped [OF assms, of t Q] show ?thesis by auto
next
  case nil
  then show ?thesis by (simp add: match_link_None_first)
next
  case (one q)
  obtain a w' where w: "w = a # w'" using assms(1) by (cases w) auto
  have "greedy_plus link_class link_close (w' @ CHR ''_'' # f # Q) = None"
    if "a = CHR ''_''"
    using assms w that
    by (intro greedy_link_blocked)
      (auto simp: link_blocked_def list_ex_iff link_class_underscore split: if_splits)
  with one w show ?thesis by auto
next
  case (two q a)
  have "greedy_plus link_class link_close (w @ CHR ''_'' # f # Q) = None"
    using assms by (intro greedy_link_blocked) (auto simp: link_blocked_def list_ex_iff)
  with two show ?thesis by auto
qed

lemma sub_link_into_wrapped:
  assumes "w \<noteq> []" and "\<forall>c\<in>set w. emph_class c" and "emph_follow f" and "link_blocked w f"
  shows "sub_link (p @ CHR ''_'' # w @ CHR ''_'' # f # Q) =
         sub_link p @ CHR ''_'' # w @ CHR ''_'' # f # sub_link Q"
proof (induction p rule: sub_link.induct)
  case 1
  have "sub_link ((CHR ''_'' # w @ [CHR ''_'', f]) @ Q) = (CHR ''_'' # w @ [CHR ''_'', f]) @ sub_link Q"
    using assms(2,3) by (intro sub_link_no_paren) (auto dest: emph_class_not_paren emph_follow_neq)
  then show ?case by simp
next
  case (2 c p)
  note m = match_link_into_wrapped [OF assms, of "c # p" Q]
  show ?case
  proof (cases "match_link (c # p)")
    case None
    from 2(1) [OF None] None m show ?thesis by simp
  next
    case (Some a)
    obtain g r where a: "a = (g, r)" by (cases a)
    from 2(2) [OF Some a [symmetric]] Some a m show ?thesis by simp
  qed
qed

lemma fix_underscores_wrapped:
  assumes pre: "pre = [] \<or> \<not> is_word (last pre)" "\<not> open_emph False pre"
    and w: "w \<noteq> []" "\<forall>c\<in>set w. emph_class c"
    and f: "emph_follow f" "f = CHR 0x0A \<longrightarrow> \<not> later_close post"
    and l: "link_blocked w f \<or> \<not> open_link (sub_emph pre)"
  shows "fix_underscores (pre @ ''__'' @ w @ ''__'' @ f # post) =
         fix_underscores pre @ ''_'' @ w @ ''_'' @ f # fix_underscores post"
proof -
  have a: "sub_emph (pre @ ''__'' @ w @ ''__'' @ f # post) =
         sub_emph pre @ CHR ''_'' # w @ CHR ''_'' # f # sub_emph post"
    using sub_emph_wrapped [OF pre w f] by simp
  have b: "sub_link (sub_emph pre @ CHR ''_'' # w @ CHR ''_'' # f # sub_emph post) =
      sub_link (sub_emph pre) @ CHR ''_'' # w @ CHR ''_'' # f # sub_link (sub_emph post)"
    using l
  proof
    assume "link_blocked w f"
    with w f(1) show ?thesis by (intro sub_link_into_wrapped)
  next
    assume "\<not> open_link (sub_emph pre)"
    then have "sub_link (sub_emph pre @ CHR ''_'' # w @ CHR ''_'' # f # sub_emph post) =
      sub_link (sub_emph pre) @ sub_link (CHR ''_'' # w @ CHR ''_'' # f # sub_emph post)"
      by (rule sub_link_context)
    moreover have "sub_link ((CHR ''_'' # w @ [CHR ''_'', f]) @ sub_emph post) =
        (CHR ''_'' # w @ [CHR ''_'', f]) @ sub_link (sub_emph post)"
      using w(2) f(1) by (intro sub_link_no_paren) (auto dest: emph_class_not_paren emph_follow_neq)
    ultimately show ?thesis by simp
  qed
  show ?thesis
    unfolding fix_underscores_eq a b by simp
qed

subsection \<open>The two substitutions in either order\<close>






















section \<open>The claims\<close>



text \<open>
  Claim C2. The claim says that \<^verbatim>\<open>(__some/path-1__)\<close> comes back as \<^verbatim>\<open>(_some/path-1_)\<close>.
  The code leaves it as it is: the hyphen in \<^verbatim>\<open>[\w\/-:\.]\<close> makes the range from \<open>/\<close>
  to \<open>:\<close>, so the hyphen itself is not in the class, and the link pattern does not match
  a path with a hyphen. The same path without the hyphen is rewritten.
\<close>

theorem link_path_with_hyphen_kept:
  "fix_underscores ''(__some/path-1__)'' = ''(__some/path-1__)'' \<and>
   \<not> link_class (CHR ''-'') \<and>
   fix_underscores ''(__some/path1__)'' = ''(_some/path1_)''"
  by code_simp




text \<open>
  Claim C4, amended. \<^verbatim>\<open>__Example Text__.\<close> is rewritten to \<^verbatim>\<open>_Example Text_.\<close> when it stands
  at the start of the text or after a non-word character and no \<^verbatim>\<open>__\<close> before it is still
  open; the text before it and the text after it are cleaned up on their own. A text with
  no double underscore is returned as it is, by the clean-up step and by
  \<open>markdown2asciidoc\<close> when the converter returns it.
\<close>

theorem example_text_and_unchanged:
  "((pre = [] \<or> \<not> is_word (last pre)) \<and> \<not> open_emph False pre \<longrightarrow>
      fix_underscores (pre @ ''__Example Text__.'' @ post) =
        fix_underscores pre @ ''_Example Text_.'' @ fix_underscores post) \<and>
   (\<not> str_in ''__'' out \<longrightarrow> fix_underscores out = out) \<and>
   (get_pandoc_version E = Inr pv \<and> atx_args_for pv = Inr a \<and>
    convert_pandoc E source MARKDOWN_FMT ''asciidoc'' (Some (or_default extra_args a)) = Inr out \<and>
    \<not> str_in ''__'' out \<longrightarrow>
      fst (markdown2asciidoc E source extra_args tr) = Inr out)"
proof (intro conjI impI)
  assume "(pre = [] \<or> \<not> is_word (last pre)) \<and> \<not> open_emph False pre"
  moreover have "link_blocked ''Example Text'' (CHR ''.'')" by code_simp
  ultimately have "fix_underscores (pre @ ''__'' @ ''Example Text'' @ ''__'' @ CHR ''.'' # post) =
        fix_underscores pre @ ''_'' @ ''Example Text'' @ ''_'' @ CHR ''.'' # fix_underscores post"
    by (intro fix_underscores_wrapped) (simp_all add: emph_class_def emph_follow_def is_word_def)
  then show "fix_underscores (pre @ ''__Example Text__.'' @ post) =
        fix_underscores pre @ ''_Example Text_.'' @ fix_underscores post"
    by simp
next
  assume "\<not> str_in ''__'' out"
  then show "fix_underscores out = out" by (simp add: fix_underscores_def)
next
  assume "get_pandoc_version E = Inr pv \<and> atx_args_for pv = Inr a \<and>
    convert_pandoc E source MARKDOWN_FMT ''asciidoc'' (Some (or_default extra_args a)) = Inr out \<and>
    \<not> str_in ''__'' out"
  then show "fst (markdown2asciidoc E source extra_args tr) = Inr out"
    by (simp add: markdown2asciidoc_result fix_underscores_def)
qed

text \<open>
  The rewrite after a text with single underscores and before a link, and a text with
  single underscores only.
\<close>

theorem example_text_and_unchanged_witness:
  "fix_underscores ''_emph_ then __Example Text__. and (__a/b__)'' =
     ''_emph_ then _Example Text_. and (_a/b_)'' \<and>
   fix_underscores ''a_b _c_'' = ''a_b _c_'' \<and>
   fst (markdown2asciidoc echo_env ''a_b _c_'' None []) = Inr ''a_b _c_''"
proof -
  have a: "atx_args_for None = Inr [''--atx-headers'']"
    by (simp add: atx_args_for_def)
  have n: "\<not> str_in ''__'' ''a_b _c_''" by simp
  have h: "\<not> open_emph False ''_emph_ then ''" by code_simp
  have v: "fix_underscores ''_emph_ then '' = ''_emph_ then ''"
    "fix_underscores '' and (__a/b__)'' = '' and (_a/b_)''" by code_simp+
  show ?thesis
    using example_text_and_unchanged
            [of "''_emph_ then ''" "'' and (__a/b__)''" "''a_b _c_''" echo_env None
                "[''--atx-headers'']" "''a_b _c_''" None "[]"]
      a n h v
    by (simp add: is_word_def echo_env_def)
qed

text \<open>
  As the claim states it, any text that contains \<^verbatim>\<open>__Example Text__.\<close> would be rewritten.
  After a word character the \<^verbatim>\<open>\b\<close> of the pattern fails and nothing is rewritten; after
  an open \<^verbatim>\<open>__\<close> the match starts there and the opening underscores of the example stay.
\<close>

theorem example_text_counterexample:
  "str_in ''__Example Text__.'' ''x__Example Text__.'' \<and>
   fix_underscores ''x__Example Text__.'' = ''x__Example Text__.'' \<and>
   str_in ''__Example Text__.'' ''__a __Example Text__.'' \<and>
   fix_underscores ''__a __Example Text__.'' = ''_a __Example Text_.''"
  by code_simp

text \<open>
  Claim C5. Two versions compare by their release numbers, number by number, a missing
  number counting as zero: the first numbers decide when they differ, and the rest
  decides when they are equal. The version string of release numbers parses back to
  these numbers. For every list of release numbers reported as its version string, and
  for every reported version that parses to release numbers,
  \<open>markdown2asciidoc\<close> passes \<^verbatim>\<open>--markdown-headings=atx\<close> when these numbers are at least
  those of 3.0, and \<^verbatim>\<open>--atx-headers\<close> when they are not. So 10.0 is at least 3.0 and 3.0 is
  at least 2.9, and not the other way round, although as strings \<^verbatim>\<open>10.0\<close> is below \<^verbatim>\<open>3.0\<close>
  and \<^verbatim>\<open>2.9\<close> is above \<^verbatim>\<open>10.0\<close>; with 10.0 or 3.0 reported the converter gets the new flag,
  with 2.9 the old one.
\<close>

theorem version_comparison_semantic:
  "(version_ge (x # xs) (y # ys) \<longleftrightarrow> y < x \<or> (x = y \<and> version_ge xs ys)) \<and>
   version_ge xs [] \<and>
   (version_ge [] ys \<longleftrightarrow> list_all (\<lambda>y. y = 0) ys) \<and>
   Version (dotted (major # rest)) = Inr (major # rest) \<and>
   snd (markdown2asciidoc (E\<lparr>get_pandoc_version := Inr (Some (dotted (major # rest)))\<rparr>)
          source None tr) =
     tr @ [GetPandocVersion,
           ConvertPandoc source MARKDOWN_FMT ''asciidoc''
             (Some (if version_ge (major # rest) [3, 0] then [''--markdown-headings=atx'']
                    else [''--atx-headers'']))] \<and>
   (v \<noteq> [] \<and> Version v = Inr (major # rest) \<longrightarrow>
      snd (markdown2asciidoc (E\<lparr>get_pandoc_version := Inr (Some v)\<rparr>) source None tr) =
        tr @ [GetPandocVersion,
              ConvertPandoc source MARKDOWN_FMT ''asciidoc''
                (Some (if version_ge (major # rest) [3, 0] then [''--markdown-headings=atx'']
                       else [''--atx-headers'']))]) \<and>
   dotted [10, 0] = ''10.0'' \<and> dotted [3, 0] = ''3.0'' \<and> dotted [2, 9] = ''2.9'' \<and>
   version_ge [10, 0] [3, 0] \<and> \<not> version_ge [3, 0] [10, 0] \<and>
   version_ge [3, 0] [2, 9] \<and> \<not> version_ge [2, 9] [3, 0] \<and>
   \<not> str_ge ''10.0'' ''3.0'' \<and> str_ge ''2.9'' ''10.0'' \<and>
   snd (markdown2asciidoc (E\<lparr>get_pandoc_version := Inr (Some ''10.0'')\<rparr>) source None tr) =
     tr @ [GetPandocVersion,
           ConvertPandoc source MARKDOWN_FMT ''asciidoc'' (Some [''--markdown-headings=atx''])] \<and>
   snd (markdown2asciidoc (E\<lparr>get_pandoc_version := Inr (Some ''3.0'')\<rparr>) source None tr) =
     tr @ [GetPandocVersion,
           ConvertPandoc source MARKDOWN_FMT ''asciidoc'' (Some [''--markdown-headings=atx''])] \<and>
   snd (markdown2asciidoc (E\<lparr>get_pandoc_version := Inr (Some ''2.9'')\<rparr>) source None tr) =
     tr @ [GetPandocVersion,
           ConvertPandoc source MARKDOWN_FMT ''asciidoc'' (Some [''--atx-headers''])]"
proof -
  have d: "dotted [10, 0] = ''10.0''" "dotted [3, 0] = ''3.0''" "dotted [2, 9] = ''2.9''"
    by code_simp+
  have p: "Version ''10.0'' = Inr [10, 0]" "Version ''3.0'' = Inr [3, 0]"
    "Version ''2.9'' = Inr [2, 9]"
    by (simp_all add: Version_def is_digit_def int_of_digits_def)
  have c: "version_ge [10, 0] [3, 0]" "\<not> version_ge [3, 0] [10, 0]"
    "version_ge [3, 0] [2, 9]" "\<not> version_ge [2, 9] [3, 0]"
    by (simp_all add: version_ge_Cons version_ge_Nil)
  have l: "\<not> str_ge ''10.0'' ''3.0''" "str_ge ''2.9'' ''10.0''" by simp_all
  have a: "atx_args_for (Some ''10.0'') = Inr [''--markdown-headings=atx'']"
    "atx_args_for (Some ''3.0'') = Inr [''--markdown-headings=atx'']"
    "atx_args_for (Some ''2.9'') = Inr [''--atx-headers'']"
    by (simp_all add: atx_args_for_def p version_ge_3_0)
  have g: "snd (markdown2asciidoc (E\<lparr>get_pandoc_version := Inr (Some v)\<rparr>) source None tr) =
        tr @ [GetPandocVersion,
              ConvertPandoc source MARKDOWN_FMT ''asciidoc''
                (Some (if version_ge (major # rest) [3, 0] then [''--markdown-headings=atx'']
                       else [''--atx-headers'']))]"
    if h: "v \<noteq> []" "Version v = Inr (major # rest)" for v
  proof -
    from h have "atx_args_for (Some v) =
        Inr (if version_ge (major # rest) [3, 0] then [''--markdown-headings=atx'']
             else [''--atx-headers''])"
      by (simp add: atx_args_for_parsed version_ge_3_0)
    then show ?thesis by (simp add: asciidoc_calls or_default_def)
  qed
  have r: "Version (dotted (major # rest)) = Inr (major # rest)"
    by (rule Version_dotted) simp
  note g1 = g [OF dotted_nonempty r]
  show ?thesis
    using d p c l r g1 g version_ge_Cons [of x xs y ys] version_ge_Nil [of xs]
      version_ge_Nil(2) [of ys]
    by (simp add: asciidoc_calls [OF a(1)] asciidoc_calls [OF a(2)] asciidoc_calls [OF a(3)]
        or_default_def del: dotted.simps)
qed

text \<open>
  The versions 2.19.2 and 11.1, which a comparison of strings would order the other way.
\<close>

theorem version_comparison_semantic_witness:
  "version_ge [2, 19, 2] [3, 0] = False \<and> version_ge [3] [3, 0] \<and> version_ge [3, 0, 0] [3] \<and>
   snd (markdown2asciidoc (echo_env\<lparr>get_pandoc_version := Inr (Some ''2.19.2'')\<rparr>) ''# T'' None []) =
     [GetPandocVersion, ConvertPandoc ''# T'' MARKDOWN_FMT ''asciidoc'' (Some [''--atx-headers''])] \<and>
   snd (markdown2asciidoc (echo_env\<lparr>get_pandoc_version := Inr (Some ''11.1'')\<rparr>) ''# T'' None []) =
     [GetPandocVersion,
      ConvertPandoc ''# T'' MARKDOWN_FMT ''asciidoc'' (Some [''--markdown-headings=atx''])]"
proof -
  have v: "Version ''2.19.2'' = Inr [2, 19, 2]" "Version ''11.1'' = Inr [11, 1]"
    by (simp_all add: Version_def is_digit_def int_of_digits_def)
  have c: "version_ge [2, 19, 2] [3, 0] = False" "version_ge [3] [3, 0]" "version_ge [3, 0, 0] [3]"
    "version_ge [11, 1] [3, 0]"
    by (simp_all add: version_ge_Cons version_ge_Nil)
  have w: "''2.19.2'' \<noteq> [] \<and> Version ''2.19.2'' = Inr [2, 19, 2]"
    "''11.1'' \<noteq> [] \<and> Version ''11.1'' = Inr [11, 1]" using v by simp_all
  from version_comparison_semantic
         [of 2 "[19, 2]" 3 "[0]" 2 "[19, 2]" echo_env "''# T''" "[]" "''2.19.2''"] w(1)
  have 1: "snd (markdown2asciidoc (echo_env\<lparr>get_pandoc_version := Inr (Some ''2.19.2'')\<rparr>) ''# T'' None []) =
        [] @ [GetPandocVersion,
              ConvertPandoc ''# T'' MARKDOWN_FMT ''asciidoc''
                (Some (if version_ge [2, 19, 2] [3, 0] then [''--markdown-headings=atx'']
                       else [''--atx-headers'']))]"
    by blast
  from version_comparison_semantic
         [of 11 "[1]" 3 "[0]" 11 "[1]" echo_env "''# T''" "[]" "''11.1''"] w(2)
  have 2: "snd (markdown2asciidoc (echo_env\<lparr>get_pandoc_version := Inr (Some ''11.1'')\<rparr>) ''# T'' None []) =
        [] @ [GetPandocVersion,
              ConvertPandoc ''# T'' MARKDOWN_FMT ''asciidoc''
                (Some (if version_ge [11, 1] [3, 0] then [''--markdown-headings=atx'']
                       else [''--atx-headers'']))]"
    by blast
  show ?thesis using 1 2 c by simp
qed

text \<open>
  Claim C6. \<open>markdown2html_pandoc\<close> called without extra arguments calls the converter
  once, with the single extra argument \<^verbatim>\<open>--mathjax\<close>; called with a non-empty list, it calls
  the converter once with that list. In both cases it returns what the converter returns.
\<close>

theorem markdown2html_pandoc_extra_args:
  "markdown2html_pandoc E source None tr =
     (convert_pandoc E source MARKDOWN_FMT ''html'' (Some [''--mathjax'']),
      tr @ [ConvertPandoc source MARKDOWN_FMT ''html'' (Some [''--mathjax''])]) \<and>
   (xs \<noteq> [] \<longrightarrow>
      markdown2html_pandoc E source (Some xs) tr =
        (convert_pandoc E source MARKDOWN_FMT ''html'' (Some xs),
         tr @ [ConvertPandoc source MARKDOWN_FMT ''html'' (Some xs)]))"
  by (cases xs) (simp_all add: markdown2html_pandoc_def call_convert_pandoc_def or_default_def Let_def)

text \<open>
  A call with two explicit arguments.
\<close>

theorem markdown2html_pandoc_extra_args_witness:
  "[''--katex'', ''--toc''] \<noteq> [] \<and>
   markdown2html_pandoc echo_env ''$x$'' (Some [''--katex'', ''--toc'']) [] =
     (Inr ''$x$'', [ConvertPandoc ''$x$'' MARKDOWN_FMT ''html'' (Some [''--katex'', ''--toc''])])"
  using markdown2html_pandoc_extra_args [of echo_env "''$x$''" "[]" "[''--katex'', ''--toc'']"]
  by (simp add: echo_env_def)

text \<open>
  Claim C7. When the import of the mistune renderer fails with \<open>ImportError\<close>, loading
  the module succeeds, and \<open>markdown2html\<close> of the loaded module fails on every source
  with an \<open>ImportError\<close> whose message ends with the reason of the failed import.
\<close>

theorem mistune_missing_deferred:
  "\<exists>m. load_module (ImportFailed reason) = Inr m \<and>
       (\<forall>source. markdown2html m source =
          Inl (ImportError (''markdown2html requires mistune: '' @ reason)))"
  by (simp add: load_module_def mistune_stub_def)

text \<open>
  Claim C8, amended. \<open>markdown2rst\<close>, and \<open>markdown2latex\<close> called without \<open>markup\<close>,
  call the converter once, from \<^verbatim>\<open>markdown+lists_without_preceding_blankline\<close> to \<^verbatim>\<open>rst\<close> and
  to \<^verbatim>\<open>latex\<close>, with the caller's extra arguments as they are, and return what the converter
  returns. \<open>markdown2latex\<close> called with a \<open>markup\<close> passes that as the reader format.
\<close>

theorem markdown2latex_rst_delegate:
  "markdown2latex E source None extra_args tr =
     (convert_pandoc E source ''markdown+lists_without_preceding_blankline'' ''latex'' extra_args,
      tr @ [ConvertPandoc source ''markdown+lists_without_preceding_blankline'' ''latex'' extra_args]) \<and>
   markdown2latex E source (Some markup) extra_args tr =
     (convert_pandoc E source markup ''latex'' extra_args,
      tr @ [ConvertPandoc source markup ''latex'' extra_args]) \<and>
   markdown2rst E source extra_args tr =
     (convert_pandoc E source ''markdown+lists_without_preceding_blankline'' ''rst'' extra_args,
      tr @ [ConvertPandoc source ''markdown+lists_without_preceding_blankline'' ''rst'' extra_args])"
  by (simp add: markdown2latex_def markdown2rst_def call_convert_pandoc_def MARKDOWN_FMT_def)

text \<open>
  As the claim states it, the reader format of \<open>markdown2latex\<close> would be fixed. A caller
  that passes \<^verbatim>\<open>markdown_strict\<close> as \<open>markup\<close> gets that reader format.
\<close>

theorem markdown2latex_reader_counterexample:
  "markdown2latex echo_env ''# T'' (Some ''markdown_strict'') (Some [''--wrap=none'']) [] =
     (Inr ''# T'', [ConvertPandoc ''# T'' ''markdown_strict'' ''latex'' (Some [''--wrap=none''])]) \<and>
   ''markdown_strict'' \<noteq> MARKDOWN_FMT"
  by (simp add: markdown2latex_def call_convert_pandoc_def MARKDOWN_FMT_def echo_env_def)




text \<open>
  Claim C10. With the empty list as extra arguments, \<open>markdown2html_pandoc\<close> and
  \<open>markdown2asciidoc\<close> do what they do without extra arguments: the converter gets
  \<^verbatim>\<open>--mathjax\<close>, and the heading flag chosen from the version.
\<close>

theorem empty_extra_args_use_default:
  "markdown2html_pandoc E source (Some []) tr = markdown2html_pandoc E source None tr \<and>
   markdown2asciidoc E source (Some []) tr = markdown2asciidoc E source None tr \<and>
   snd (markdown2html_pandoc E source (Some []) tr) =
     tr @ [ConvertPandoc source MARKDOWN_FMT ''html'' (Some [''--mathjax''])] \<and>
   (atx_args_for pv = Inr atx_args \<longrightarrow>
      snd (markdown2asciidoc (E\<lparr>get_pandoc_version := Inr pv\<rparr>) source (Some []) tr) =
        tr @ [GetPandocVersion, ConvertPandoc source MARKDOWN_FMT ''asciidoc'' (Some atx_args)])"
proof (intro conjI impI)
  show "markdown2html_pandoc E source (Some []) tr = markdown2html_pandoc E source None tr"
    unfolding markdown2html_pandoc_def or_default_falsy by (rule refl)
  show "markdown2asciidoc E source (Some []) tr = markdown2asciidoc E source None tr"
    unfolding markdown2asciidoc_def or_default_falsy by (rule refl)
  show "snd (markdown2html_pandoc E source (Some []) tr) =
     tr @ [ConvertPandoc source MARKDOWN_FMT ''html'' (Some [''--mathjax''])]"
    by (simp add: markdown2html_pandoc_def or_default_def call_convert_pandoc_def Let_def)
next
  assume "atx_args_for pv = Inr atx_args"
  then show "snd (markdown2asciidoc (E\<lparr>get_pandoc_version := Inr pv\<rparr>) source (Some []) tr) =
        tr @ [GetPandocVersion, ConvertPandoc source MARKDOWN_FMT ''asciidoc'' (Some atx_args)]"
    by (simp add: asciidoc_calls or_default_def)
qed

text \<open>
  The empty list with version 3.1.2 reported.
\<close>

theorem empty_extra_args_use_default_witness:
  "atx_args_for (Some ''3.1.2'') = Inr [''--markdown-headings=atx''] \<and>
   snd (markdown2asciidoc (echo_env\<lparr>get_pandoc_version := Inr (Some ''3.1.2'')\<rparr>) ''- a'' (Some []) []) =
     [GetPandocVersion,
      ConvertPandoc ''- a'' MARKDOWN_FMT ''asciidoc'' (Some [''--markdown-headings=atx''])]"
proof -
  have v: "Version ''3.1.2'' = Inr [3, 1, 2]"
    by (simp add: Version_def is_digit_def int_of_digits_def)
  have a: "atx_args_for (Some ''3.1.2'') = Inr [''--markdown-headings=atx'']"
    using atx_args_for_parsed [OF _ v] by simp
  show ?thesis
    using a empty_extra_args_use_default
            [of echo_env "''- a''" "[]" "Some ''3.1.2''" "[''--markdown-headings=atx'']"]
    by simp
qed

end
